theory Spec2Isabelle
  imports Main
begin

section \<open>The JSON lexer of qobject/json-lexer.c\<close>

subsection \<open>States, token types and the lexer instance\<close>

text \<open>The enumeration \<^verbatim>\<open>json_lexer_state\<close>, in the order of the source
  (\<^verbatim>\<open>IN_ERROR\<close> is 0, the default of every table cell).\<close>

datatype json_lexer_state =
    IN_ERROR
  | IN_DQ_STRING_ESCAPE
  | IN_DQ_STRING
  | IN_SQ_STRING_ESCAPE
  | IN_SQ_STRING
  | IN_ZERO
  | IN_EXP_DIGITS
  | IN_EXP_SIGN
  | IN_EXP_E
  | IN_MANTISSA
  | IN_MANTISSA_DIGITS
  | IN_DIGITS
  | IN_SIGN
  | IN_KEYWORD
  | IN_INTERP
  | IN_WHITESPACE
  | IN_START
  | IN_START_INTERP

text \<open>Modelled from the spec: the enumeration \<^verbatim>\<open>JSONTokenType\<close> is declared in a
  header that is not part of the sources at hand. The tags are the ones the
  specification lists for a token; the lexer uses all of them by name.\<close>

datatype JSONTokenType =
    JSON_LCURLY
  | JSON_RCURLY
  | JSON_LSQUARE
  | JSON_RSQUARE
  | JSON_COLON
  | JSON_COMMA
  | JSON_INTEGER
  | JSON_FLOAT
  | JSON_KEYWORD
  | JSON_STRING
  | JSON_INTERP
  | JSON_SKIP
  | JSON_ERROR
  | JSON_END_OF_INPUT

text \<open>A table cell, the local \<^verbatim>\<open>new_state\<close> and the fields \<^verbatim>\<open>state\<close> and
  \<^verbatim>\<open>start_state\<close> are C integers that hold either a lexer state or a token
  type. The two ranges are disjoint: the source checks at build time that
  \<^verbatim>\<open>JSON_MIN\<close> lies above \<^verbatim>\<open>IN_START_INTERP\<close>.\<close>

datatype code = St json_lexer_state | Tok JSONTokenType

text \<open>One call of the consumer \<^verbatim>\<open>json_message_process_token\<close>: the text of the
  token buffer at the time of the call, the type passed, and the position.\<close>

record emission =
  text_of :: string
  type_of :: code
  x_of :: int
  y_of :: int

text \<open>Modelled from the spec: the structure \<^verbatim>\<open>JSONLexer\<close> is declared in a header
  that is not part of the sources at hand; its fields are the ones the source
  reads and writes. The buffer \<^verbatim>\<open>token\<close> is a growable string; the counters are
  unbounded integers here (a line of more than \<open>2^31\<close> bytes is not modelled).
  The field \<open>emitted\<close> is not in the structure: it records, in order, the calls
  of the consumer made so far.\<close>

record JSONLexer =
  start_state :: code
  state :: code
  token :: string
  x :: int
  y :: int
  emitted :: "emission list"

definition MAX_TOKEN_SIZE :: nat where
  "MAX_TOKEN_SIZE = 64 * 2 ^ 20"

subsection \<open>The transition table\<close>

text \<open>A row of the table is written in the source as a list of designated
  initializers \<^verbatim>\<open>[lo ... hi] = v\<close>. Cells that no initializer names are 0, that
  is \<^verbatim>\<open>IN_ERROR\<close>; where two initializers name the same cell, the later one
  wins.\<close>

type_synonym initializer = "nat \<times> nat \<times> code"

definition range_init :: "char \<Rightarrow> char \<Rightarrow> code \<Rightarrow> initializer" where
  "range_init lo hi v = (of_char lo, of_char hi, v)"

definition at_init :: "char \<Rightarrow> code \<Rightarrow> initializer" where
  "at_init c v = (of_char c, of_char c, v)"

definition TERMINAL :: "JSONTokenType \<Rightarrow> initializer" where
  "TERMINAL t = (0, 0x7F, Tok t)"

definition covers :: "initializer \<Rightarrow> nat \<Rightarrow> bool" where
  "covers ini i = (case ini of (lo, hi, v) \<Rightarrow> lo \<le> i \<and> i \<le> hi)"

definition apply_init :: "nat \<Rightarrow> initializer \<Rightarrow> code \<Rightarrow> code" where
  "apply_init i ini cell = (if covers ini i then snd (snd ini) else cell)"

definition cell_of :: "initializer list \<Rightarrow> nat \<Rightarrow> code" where
  "cell_of inits i = fold (apply_init i) inits (St IN_ERROR)"

text \<open>The two start rows share one initializer list.\<close>

definition start_row :: "initializer list" where
  "start_row =
    [ at_init (CHR 0x22) (St IN_DQ_STRING),
      at_init (CHR 0x27) (St IN_SQ_STRING),
      at_init (CHR ''0'') (St IN_ZERO),
      range_init (CHR ''1'') (CHR ''9'') (St IN_DIGITS),
      at_init (CHR ''-'') (St IN_SIGN),
      at_init (CHR ''{'') (Tok JSON_LCURLY),
      at_init (CHR ''}'') (Tok JSON_RCURLY),
      at_init (CHR ''['') (Tok JSON_LSQUARE),
      at_init (CHR '']'') (Tok JSON_RSQUARE),
      at_init (CHR '','') (Tok JSON_COMMA),
      at_init (CHR '':'') (Tok JSON_COLON),
      range_init (CHR ''a'') (CHR ''z'') (St IN_KEYWORD),
      at_init (CHR '' '') (St IN_WHITESPACE),
      at_init (CHR 0x09) (St IN_WHITESPACE),
      at_init (CHR 0x0D) (St IN_WHITESPACE),
      at_init (CHR 0x0A) (St IN_WHITESPACE) ]"

fun json_lexer_row :: "json_lexer_state \<Rightarrow> initializer list" where
  "json_lexer_row IN_ERROR = []"
| "json_lexer_row IN_DQ_STRING_ESCAPE =
    [ (0x20, 0xFD, St IN_DQ_STRING) ]"
| "json_lexer_row IN_DQ_STRING =
    [ (0x20, 0xFD, St IN_DQ_STRING),
      at_init (CHR 0x5C) (St IN_DQ_STRING_ESCAPE),
      at_init (CHR 0x22) (Tok JSON_STRING) ]"
| "json_lexer_row IN_SQ_STRING_ESCAPE =
    [ (0x20, 0xFD, St IN_SQ_STRING) ]"
| "json_lexer_row IN_SQ_STRING =
    [ (0x20, 0xFD, St IN_SQ_STRING),
      at_init (CHR 0x5C) (St IN_SQ_STRING_ESCAPE),
      at_init (CHR 0x27) (Tok JSON_STRING) ]"
| "json_lexer_row IN_ZERO =
    [ TERMINAL JSON_INTEGER,
      range_init (CHR ''0'') (CHR ''9'') (St IN_ERROR),
      at_init (CHR ''.'') (St IN_MANTISSA) ]"
| "json_lexer_row IN_EXP_DIGITS =
    [ TERMINAL JSON_FLOAT,
      range_init (CHR ''0'') (CHR ''9'') (St IN_EXP_DIGITS) ]"
| "json_lexer_row IN_EXP_SIGN =
    [ range_init (CHR ''0'') (CHR ''9'') (St IN_EXP_DIGITS) ]"
| "json_lexer_row IN_EXP_E =
    [ at_init (CHR ''-'') (St IN_EXP_SIGN),
      at_init (CHR ''+'') (St IN_EXP_SIGN),
      range_init (CHR ''0'') (CHR ''9'') (St IN_EXP_DIGITS) ]"
| "json_lexer_row IN_MANTISSA_DIGITS =
    [ TERMINAL JSON_FLOAT,
      range_init (CHR ''0'') (CHR ''9'') (St IN_MANTISSA_DIGITS),
      at_init (CHR ''e'') (St IN_EXP_E),
      at_init (CHR ''E'') (St IN_EXP_E) ]"
| "json_lexer_row IN_MANTISSA =
    [ range_init (CHR ''0'') (CHR ''9'') (St IN_MANTISSA_DIGITS) ]"
| "json_lexer_row IN_DIGITS =
    [ TERMINAL JSON_INTEGER,
      range_init (CHR ''0'') (CHR ''9'') (St IN_DIGITS),
      at_init (CHR ''e'') (St IN_EXP_E),
      at_init (CHR ''E'') (St IN_EXP_E),
      at_init (CHR ''.'') (St IN_MANTISSA) ]"
| "json_lexer_row IN_SIGN =
    [ at_init (CHR ''0'') (St IN_ZERO),
      range_init (CHR ''1'') (CHR ''9'') (St IN_DIGITS) ]"
| "json_lexer_row IN_KEYWORD =
    [ TERMINAL JSON_KEYWORD,
      range_init (CHR ''a'') (CHR ''z'') (St IN_KEYWORD) ]"
| "json_lexer_row IN_WHITESPACE =
    [ TERMINAL JSON_SKIP,
      at_init (CHR '' '') (St IN_WHITESPACE),
      at_init (CHR 0x09) (St IN_WHITESPACE),
      at_init (CHR 0x0D) (St IN_WHITESPACE),
      at_init (CHR 0x0A) (St IN_WHITESPACE) ]"
| "json_lexer_row IN_INTERP =
    [ TERMINAL JSON_INTERP,
      range_init (CHR ''A'') (CHR ''Z'') (St IN_INTERP),
      range_init (CHR ''a'') (CHR ''z'') (St IN_INTERP),
      range_init (CHR ''0'') (CHR ''9'') (St IN_INTERP) ]"
| "json_lexer_row IN_START = start_row"
| "json_lexer_row IN_START_INTERP = start_row @ [ at_init (CHR ''%'') (St IN_INTERP) ]"

text \<open>The cell \<^verbatim>\<open>json_lexer[s][i]\<close>, for a byte value \<open>i\<close>.\<close>

definition json_lexer :: "json_lexer_state \<Rightarrow> nat \<Rightarrow> code" where
  "json_lexer s i = cell_of (json_lexer_row s) i"

definition TERMINAL_NEEDED_LOOKAHEAD :: "json_lexer_state \<Rightarrow> code \<Rightarrow> bool" where
  "TERMINAL_NEEDED_LOOKAHEAD old_state terminal \<longleftrightarrow>
     terminal \<noteq> St IN_ERROR \<and> json_lexer old_state 0 = terminal"

subsection \<open>The driver\<close>

text \<open>Modelled from the spec: \<^verbatim>\<open>json_message_process_token\<close> is the consumer of
  the tokens, defined outside the sources at hand. It is handed the token text,
  the tag and the position; the model appends the call to \<open>emitted\<close>.\<close>

definition json_message_process_token ::
    "JSONLexer \<Rightarrow> string \<Rightarrow> code \<Rightarrow> int \<Rightarrow> int \<Rightarrow> JSONLexer" where
  "json_message_process_token lexer input type px py =
     lexer\<lparr>emitted := emitted lexer @
       [\<lparr>text_of = input, type_of = type, x_of = px, y_of = py\<rparr>]\<rparr>"

definition json_lexer_init :: "bool \<Rightarrow> JSONLexer" where
  "json_lexer_init enable_interpolation =
     \<lparr>start_state = St (if enable_interpolation then IN_START_INTERP else IN_START),
      state = St (if enable_interpolation then IN_START_INTERP else IN_START),
      token = [], x = 0, y = 0, emitted = []\<rparr>"

text \<open>The only failure of the lexer itself is its assertion on the table index.\<close>

datatype error = Assertion_Failed

text \<open>How one pass through the body of the \<^verbatim>\<open>do ... while\<close> loop ends: with the
  \<^verbatim>\<open>return\<close> of the error case, or at the loop condition, with the value of
  \<^verbatim>\<open>char_consumed\<close>.\<close>

datatype iteration = Return JSONLexer | Next JSONLexer bool

text \<open>The case labels of the \<^verbatim>\<open>switch\<close> that report a token before they fall
  through to \<^verbatim>\<open>JSON_SKIP\<close>.\<close>

definition token_cases :: "code list" where
  "token_cases =
     [Tok JSON_LCURLY, Tok JSON_RCURLY, Tok JSON_LSQUARE, Tok JSON_RSQUARE,
      Tok JSON_COLON, Tok JSON_COMMA, Tok JSON_INTERP, Tok JSON_INTEGER,
      Tok JSON_FLOAT, Tok JSON_KEYWORD, Tok JSON_STRING]"

text \<open>The loop body. The assertion of the source lets a row index pass only when
  it is within the table; a field \<open>state\<close> that holds a token type is beyond the
  table, and the model fails there.\<close>

definition feed_char_iteration :: "JSONLexer \<Rightarrow> char \<Rightarrow> bool \<Rightarrow> error + iteration" where
  "feed_char_iteration lexer ch flush =
     (case state lexer of
        Tok t \<Rightarrow> Inl Assertion_Failed
      | St s \<Rightarrow>
          (let new_state = json_lexer s (of_char ch);
               char_consumed = \<not> TERMINAL_NEEDED_LOOKAHEAD s new_state;
               lexer1 = (if char_consumed \<and> \<not> flush
                         then lexer\<lparr>token := token lexer @ [ch]\<rparr> else lexer)
           in if new_state \<in> set token_cases then
                (let lexer2 = json_message_process_token lexer1 (token lexer1) new_state
                                (x lexer1) (y lexer1)
                 in Inr (Next (lexer2\<lparr>token := [], state := start_state lexer2\<rparr>)
                           char_consumed))
              else if new_state = Tok JSON_SKIP then
                Inr (Next (lexer1\<lparr>token := [], state := start_state lexer1\<rparr>) char_consumed)
              else if new_state = St IN_ERROR then
                (let lexer2 = json_message_process_token lexer1 (token lexer1) (Tok JSON_ERROR)
                                (x lexer1) (y lexer1)
                 in Inr (Return (lexer2\<lparr>token := [], state := start_state lexer2\<rparr>)))
              else Inr (Next (lexer1\<lparr>state := new_state\<rparr>) char_consumed)))"

text \<open>The size check that follows the loop.\<close>

definition token_size_check :: "JSONLexer \<Rightarrow> JSONLexer" where
  "token_size_check lexer =
     (if length (token lexer) > MAX_TOKEN_SIZE then
        (let lexer1 = json_message_process_token lexer (token lexer) (state lexer)
                        (x lexer) (y lexer)
         in lexer1\<lparr>token := [], state := start_state lexer1\<rparr>)
      else lexer)"

text \<open>The loop with what follows it. The loop repeats while the byte was not
  consumed and the call is not a flush; nothing in its text bounds the number
  of repetitions, so the result is optional: \<open>None\<close> stands for a call that
  never returns.\<close>

partial_function (option) feed_char_loop ::
    "JSONLexer \<Rightarrow> char \<Rightarrow> bool \<Rightarrow> (error + JSONLexer) option" where
  "feed_char_loop lexer ch flush =
     (case feed_char_iteration lexer ch flush of
        Inl e \<Rightarrow> Some (Inl e)
      | Inr (Return lexer') \<Rightarrow> Some (Inr lexer')
      | Inr (Next lexer' char_consumed) \<Rightarrow>
          if \<not> char_consumed \<and> \<not> flush then feed_char_loop lexer' ch flush
          else Some (Inr (token_size_check lexer')))"

text \<open>The position counters, advanced once per call before the loop.\<close>

definition advance_position :: "JSONLexer \<Rightarrow> char \<Rightarrow> JSONLexer" where
  "advance_position lexer ch =
     (let lexer1 = lexer\<lparr>x := x lexer + 1\<rparr>
      in if ch = CHR 0x0A then lexer1\<lparr>x := 0, y := y lexer1 + 1\<rparr> else lexer1)"

definition json_lexer_feed_char ::
    "JSONLexer \<Rightarrow> char \<Rightarrow> bool \<Rightarrow> (error + JSONLexer) option" where
  "json_lexer_feed_char lexer ch flush = feed_char_loop (advance_position lexer ch) ch flush"

fun json_lexer_feed :: "JSONLexer \<Rightarrow> string \<Rightarrow> (error + JSONLexer) option" where
  "json_lexer_feed lexer [] = Some (Inr lexer)"
| "json_lexer_feed lexer (c # buffer) =
     (case json_lexer_feed_char lexer c False of
        Some (Inr lexer') \<Rightarrow> json_lexer_feed lexer' buffer
      | r \<Rightarrow> r)"

definition json_lexer_flush :: "JSONLexer \<Rightarrow> (error + JSONLexer) option" where
  "json_lexer_flush lexer =
     (case (if state lexer \<noteq> start_state lexer
            then json_lexer_feed_char lexer (CHR 0x00) True
            else Some (Inr lexer)) of
        Some (Inr lexer') \<Rightarrow>
          Some (Inr (json_message_process_token lexer' (token lexer')
                       (Tok JSON_END_OF_INPUT) (x lexer') (y lexer')))
      | r \<Rightarrow> r)"

subsection \<open>Calls in sequence\<close>

text \<open>A client calls \<^verbatim>\<open>json_lexer_feed\<close> and \<^verbatim>\<open>json_lexer_flush\<close> in any order on
  one instance.\<close>

datatype call = Feed string | Flush

fun run :: "JSONLexer \<Rightarrow> call list \<Rightarrow> (error + JSONLexer) option" where
  "run lexer [] = Some (Inr lexer)"
| "run lexer (Feed buffer # calls) =
     (case json_lexer_feed lexer buffer of
        Some (Inr lexer') \<Rightarrow> run lexer' calls
      | r \<Rightarrow> r)"
| "run lexer (Flush # calls) =
     (case json_lexer_flush lexer of
        Some (Inr lexer') \<Rightarrow> run lexer' calls
      | r \<Rightarrow> r)"

text \<open>Feeding a buffer with one call of \<^verbatim>\<open>json_lexer_feed\<close> per byte.\<close>

fun feed_bytewise :: "JSONLexer \<Rightarrow> string \<Rightarrow> (error + JSONLexer) option" where
  "feed_bytewise lexer [] = Some (Inr lexer)"
| "feed_bytewise lexer (c # buffer) =
     (case json_lexer_feed lexer [c] of
        Some (Inr lexer') \<Rightarrow> feed_bytewise lexer' buffer
      | r \<Rightarrow> r)"

subsection \<open>Auxiliary notions for the proofs\<close>

text \<open>The loop of \<open>feed_char_loop\<close> with a budget of passes through its body; the
  result is \<open>None\<close> when the budget does not suffice.\<close>

fun feed_char_loop_bounded ::
    "nat \<Rightarrow> JSONLexer \<Rightarrow> char \<Rightarrow> bool \<Rightarrow> (error + JSONLexer) option" where
  "feed_char_loop_bounded 0 lexer ch flush = None"
| "feed_char_loop_bounded (Suc n) lexer ch flush =
     (case feed_char_iteration lexer ch flush of
        Inl e \<Rightarrow> Some (Inl e)
      | Inr (Return lexer') \<Rightarrow> Some (Inr lexer')
      | Inr (Next lexer' char_consumed) \<Rightarrow>
          if \<not> char_consumed \<and> \<not> flush then feed_char_loop_bounded n lexer' ch flush
          else Some (Inr (token_size_check lexer')))"

text \<open>An instance as \<^verbatim>\<open>json_lexer_init\<close> makes it and the operations keep it: the
  start state is one of the two start rows and the current state is a row of
  the table.\<close>

definition well_formed :: "JSONLexer \<Rightarrow> bool" where
  "well_formed l \<longleftrightarrow>
     (start_state l = St IN_START \<or> start_state l = St IN_START_INTERP) \<and>
     (\<exists>s. state l = St s)"

definition no_skip :: "emission list \<Rightarrow> bool" where
  "no_skip es \<longleftrightarrow> (\<forall>e \<in> set es. type_of e \<noteq> Tok JSON_SKIP)"

text \<open>\<open>extends l l'\<close>: \<open>l'\<close> has the start state of \<open>l\<close>, and its consumer has
  seen the calls of \<open>l\<close> followed by calls that do not carry the skip tag.\<close>

definition extends :: "JSONLexer \<Rightarrow> JSONLexer \<Rightarrow> bool" where
  "extends l l' \<longleftrightarrow>
     start_state l' = start_state l \<and>
     (\<exists>new. emitted l' = emitted l @ new \<and> no_skip new)"

text \<open>\<open>settled l\<close>: in addition the buffer is within the bound, and it is empty
  whenever the lexer is in its start state.\<close>

definition settled :: "JSONLexer \<Rightarrow> bool" where
  "settled l \<longleftrightarrow> well_formed l \<and> length (token l) \<le> MAX_TOKEN_SIZE \<and>
     (state l = start_state l \<longrightarrow> token l = [])"

section \<open>Basic facts\<close>

lemmas table_defs = json_lexer_def cell_of_def apply_init_def covers_def TERMINAL_def
  range_init_def at_init_def start_row_def

subsection \<open>The bounded loop agrees with the loop\<close>

lemma feed_char_loop_bounded_sound:
  "feed_char_loop_bounded n lexer ch flush = Some r \<Longrightarrow> feed_char_loop lexer ch flush = Some r"
proof (induction n arbitrary: lexer)
  case 0
  then show ?case by simp
next
  case (Suc n)
  show ?case
  proof (cases "feed_char_iteration lexer ch flush")
    case (Inl e)
    with Suc.prems show ?thesis by (subst feed_char_loop.simps) simp
  next
    case (Inr it)
    show ?thesis
    proof (cases it)
      case (Return l')
      with Inr Suc.prems show ?thesis by (subst feed_char_loop.simps) simp
    next
      case (Next l' c)
      show ?thesis
      proof (cases "\<not> c \<and> \<not> flush")
        case True
        with Inr Next Suc.prems have "feed_char_loop_bounded n l' ch flush = Some r" by simp
        then have "feed_char_loop l' ch flush = Some r" by (rule Suc.IH)
        with Inr Next True show ?thesis by (subst feed_char_loop.simps) simp
      next
        case False
        with Inr Next Suc.prems show ?thesis by (subst feed_char_loop.simps) auto
      qed
    qed
  qed
qed

subsection \<open>Cells of the table\<close>

lemma json_lexer_cell_kinds:
  "json_lexer s i \<in> set token_cases \<or> json_lexer s i = Tok JSON_SKIP \<or>
   (\<exists>s'. json_lexer s i = St s' \<and> s' \<noteq> IN_START \<and> s' \<noteq> IN_START_INTERP)"
  by (cases s) (simp_all add: table_defs token_cases_def)

lemma json_lexer_cell_zero:
  "(\<exists>t. json_lexer s 0 = Tok t) \<or> json_lexer s 0 = St IN_ERROR"
  by (cases s) (simp_all add: table_defs)

lemma start_rows_no_lookahead:
  "\<not> TERMINAL_NEEDED_LOOKAHEAD IN_START v" "\<not> TERMINAL_NEEDED_LOOKAHEAD IN_START_INTERP v"
  by (auto simp add: TERMINAL_NEEDED_LOOKAHEAD_def table_defs)



subsection \<open>One pass through the loop body\<close>

lemma token_cases_not_skip: "v \<in> set token_cases \<Longrightarrow> v \<noteq> Tok JSON_SKIP \<and> v \<noteq> St IN_ERROR \<and> (\<exists>t. v = Tok t)"
  by (auto simp add: token_cases_def)

lemma iteration_outcome:
  assumes "state l = St s" and "start_state l = St IN_START \<or> start_state l = St IN_START_INTERP"
  shows "(\<exists>l'. feed_char_iteration l ch fl = Inr (Return l') \<and> extends l l' \<and>
            state l' = start_state l \<and> token l' = []) \<or>
         (\<exists>l' c. feed_char_iteration l ch fl = Inr (Next l' c) \<and> extends l l' \<and>
            json_lexer s (of_char ch) \<noteq> St IN_ERROR \<and>
            (c \<longleftrightarrow> \<not> TERMINAL_NEEDED_LOOKAHEAD s (json_lexer s (of_char ch))) \<and>
            (\<exists>s'. state l' = St s') \<and>
            (state l' = start_state l \<longrightarrow> token l' = []) \<and>
            (\<not> c \<or> (\<exists>t. json_lexer s (of_char ch) = Tok t) \<longrightarrow>
               state l' = start_state l \<and> token l' = []))"
proof -
  let ?v = "json_lexer s (of_char ch)"
  consider (tok) "?v \<in> set token_cases" | (skip) "?v = Tok JSON_SKIP" | (err) "?v = St IN_ERROR"
    | (go) s' where "?v = St s'" "s' \<noteq> IN_ERROR" "s' \<noteq> IN_START" "s' \<noteq> IN_START_INTERP"
    using json_lexer_cell_kinds [of s "of_char ch"] by blast
  then show ?thesis
  proof cases
    case tok
    with assms show ?thesis
      by (auto simp add: feed_char_iteration_def Let_def json_message_process_token_def
          extends_def no_skip_def token_cases_not_skip)
  next
    case skip
    with assms show ?thesis
      by (auto simp add: feed_char_iteration_def Let_def json_message_process_token_def
          extends_def no_skip_def token_cases_def)
  next
    case err
    with assms show ?thesis
      by (auto simp add: feed_char_iteration_def Let_def json_message_process_token_def
          extends_def no_skip_def token_cases_def)
  next
    case go
    have "TERMINAL_NEEDED_LOOKAHEAD s (St s') \<Longrightarrow> False"
      using json_lexer_cell_zero [of s] go by (auto simp add: TERMINAL_NEEDED_LOOKAHEAD_def)
    with go assms show ?thesis
      by (auto simp add: feed_char_iteration_def Let_def json_message_process_token_def
          extends_def no_skip_def token_cases_def)
  qed
qed

lemma extends_refl: "extends l l"
  by (simp add: extends_def no_skip_def)

lemma extends_trans: "extends a b \<Longrightarrow> extends b c \<Longrightarrow> extends a c"
  by (auto simp add: extends_def no_skip_def)

lemma token_size_check_post:
  assumes "well_formed l" and "state l = start_state l \<longrightarrow> token l = []"
  shows "extends l (token_size_check l) \<and> settled (token_size_check l)"
  using assms
  by (auto simp add: token_size_check_def well_formed_def settled_def extends_def no_skip_def
      json_message_process_token_def Let_def)

lemma token_size_check_idle:
  "token l = [] \<Longrightarrow> token_size_check l = l"
  by (simp add: token_size_check_def)

lemma well_formed_extends:
  "well_formed l \<Longrightarrow> extends l l' \<Longrightarrow> \<exists>s. state l' = St s \<Longrightarrow> well_formed l'"
  by (simp add: well_formed_def extends_def)

lemma feed_char_loop_bounded_total:
  assumes "well_formed l"
  shows "\<exists>l'. feed_char_loop_bounded (Suc (Suc 0)) l ch fl = Some (Inr l') \<and>
           extends l l' \<and> settled l' \<and>
           (\<forall>s. state l = St s \<and>
                (fl \<and> (\<exists>t. json_lexer s (of_char ch) = Tok t) \<or>
                 json_lexer s (of_char ch) = St IN_ERROR) \<longrightarrow>
                state l' = start_state l \<and> token l' = [])"
proof -
  from assms obtain s where s: "state l = St s" and
    st: "start_state l = St IN_START \<or> start_state l = St IN_START_INTERP"
    by (auto simp add: well_formed_def)
  from iteration_outcome [OF s st, of ch fl]
  consider (ret) l1 where "feed_char_iteration l ch fl = Inr (Return l1)" "extends l l1"
      "state l1 = start_state l" "token l1 = []"
    | (nxt) l1 c where "feed_char_iteration l ch fl = Inr (Next l1 c)" "extends l l1"
      "json_lexer s (of_char ch) \<noteq> St IN_ERROR"
      "c \<longleftrightarrow> \<not> TERMINAL_NEEDED_LOOKAHEAD s (json_lexer s (of_char ch))"
      "\<exists>s'. state l1 = St s'" "state l1 = start_state l \<longrightarrow> token l1 = []"
      "\<not> c \<or> (\<exists>t. json_lexer s (of_char ch) = Tok t) \<longrightarrow>
         state l1 = start_state l \<and> token l1 = []"
    by blast
  then show ?thesis
  proof cases
    case ret
    from ret(2,3) st have "well_formed l1"
      by (auto simp add: well_formed_def extends_def)
    with ret have "settled l1" by (simp add: settled_def)
    with ret show ?thesis by simp
  next
    case nxt
    have wf1: "well_formed l1"
      using assms nxt(2,5) by (rule well_formed_extends)
    have eq1: "start_state l1 = start_state l"
      using nxt(2) by (simp add: extends_def)
    show ?thesis
    proof (cases "\<not> c \<and> \<not> fl")
      case False
      have run: "feed_char_loop_bounded (Suc (Suc 0)) l ch fl = Some (Inr (token_size_check l1))"
        using nxt(1) False by auto
      have post: "extends l1 (token_size_check l1) \<and> settled (token_size_check l1)"
        using wf1 nxt(6) eq1 by (intro token_size_check_post) simp_all
      have "state (token_size_check l1) = start_state l \<and> token (token_size_check l1) = []"
        if "fl \<and> (\<exists>t. json_lexer s (of_char ch) = Tok t) \<or> json_lexer s (of_char ch) = St IN_ERROR"
        using that nxt(3,7) by (auto simp add: token_size_check_idle)
      with run post nxt(2) s show ?thesis
        by (auto intro: extends_trans)
    next
      case True
      with nxt(7) have l1: "state l1 = start_state l" "token l1 = []" by simp_all
      from st obtain s0 where s0: "start_state l = St s0" "s0 = IN_START \<or> s0 = IN_START_INTERP"
        by auto
      have st1: "start_state l1 = St IN_START \<or> start_state l1 = St IN_START_INTERP"
        using st eq1 by simp
      have s1: "state l1 = St s0" using l1 s0 by simp
      have nl: "\<not> TERMINAL_NEEDED_LOOKAHEAD s0 v" for v
        using s0(2) start_rows_no_lookahead by auto
      from iteration_outcome [OF s1 st1, of ch fl]
      consider (ret2) l2 where "feed_char_iteration l1 ch fl = Inr (Return l2)" "extends l1 l2"
          "state l2 = start_state l1" "token l2 = []"
        | (nxt2) l2 where "feed_char_iteration l1 ch fl = Inr (Next l2 True)" "extends l1 l2"
          "\<exists>s'. state l2 = St s'" "state l2 = start_state l1 \<longrightarrow> token l2 = []"
        using nl by auto
      then show ?thesis
      proof cases
        case ret2
        have run: "feed_char_loop_bounded (Suc (Suc 0)) l ch fl = Some (Inr l2)"
          using nxt(1) True ret2(1) by simp
        have "well_formed l2"
          using ret2(2,3) st1 by (auto simp add: well_formed_def extends_def)
        with ret2 have "settled l2" by (simp add: settled_def)
        moreover have "extends l l2" using nxt(2) ret2(2) by (rule extends_trans)
        moreover have "\<not> (fl \<and> (\<exists>t. json_lexer s (of_char ch) = Tok t) \<or>
                 json_lexer s (of_char ch) = St IN_ERROR)"
          using True nxt(3) by simp
        ultimately show ?thesis using run s by auto
      next
        case nxt2
        have run: "feed_char_loop_bounded (Suc (Suc 0)) l ch fl = Some (Inr (token_size_check l2))"
          using nxt(1) True nxt2(1) by simp
        have wf2: "well_formed l2"
          using wf1 nxt2(2,3) by (rule well_formed_extends)
        have eq2: "start_state l2 = start_state l1"
          using nxt2(2) by (simp add: extends_def)
        have post: "extends l2 (token_size_check l2) \<and> settled (token_size_check l2)"
          using wf2 nxt2(4) eq2 by (intro token_size_check_post) simp_all
        have "extends l (token_size_check l2)"
          using nxt(2) nxt2(2) post by (blast intro: extends_trans)
        moreover have "\<not> (fl \<and> (\<exists>t. json_lexer s (of_char ch) = Tok t) \<or>
                 json_lexer s (of_char ch) = St IN_ERROR)"
          using True nxt(3) by simp
        ultimately show ?thesis using run post s by auto
      qed
    qed
  qed
qed

subsection \<open>The operations return and keep the instance in order\<close>

lemma feed_char_loop_total:
  assumes "well_formed l"
  shows "\<exists>l'. feed_char_loop l ch fl = Some (Inr l') \<and>
           feed_char_loop_bounded (Suc (Suc 0)) l ch fl = Some (Inr l') \<and>
           extends l l' \<and> settled l' \<and>
           (\<forall>s. state l = St s \<and>
                (fl \<and> (\<exists>t. json_lexer s (of_char ch) = Tok t) \<or>
                 json_lexer s (of_char ch) = St IN_ERROR) \<longrightarrow>
                state l' = start_state l \<and> token l' = [])"
proof -
  from feed_char_loop_bounded_total [OF assms, of ch fl] obtain l' where
    l': "feed_char_loop_bounded (Suc (Suc 0)) l ch fl = Some (Inr l')" "extends l l'" "settled l'"
      "\<forall>s. state l = St s \<and>
                (fl \<and> (\<exists>t. json_lexer s (of_char ch) = Tok t) \<or>
                 json_lexer s (of_char ch) = St IN_ERROR) \<longrightarrow>
                state l' = start_state l \<and> token l' = []"
    by blast
  from l'(1) have "feed_char_loop l ch fl = Some (Inr l')"
    by (rule feed_char_loop_bounded_sound)
  with l' show ?thesis by blast
qed

lemma advance_position_fields [simp]:
  "start_state (advance_position l ch) = start_state l"
  "state (advance_position l ch) = state l"
  "token (advance_position l ch) = token l"
  "emitted (advance_position l ch) = emitted l"
  by (simp_all add: advance_position_def Let_def)

lemma json_lexer_feed_char_total:
  assumes "well_formed l"
  shows "\<exists>l'. json_lexer_feed_char l ch fl = Some (Inr l') \<and> extends l l' \<and> settled l' \<and>
           (\<forall>s. state l = St s \<and>
                (fl \<and> (\<exists>t. json_lexer s (of_char ch) = Tok t) \<or>
                 json_lexer s (of_char ch) = St IN_ERROR) \<longrightarrow>
                state l' = start_state l \<and> token l' = [])"
proof -
  have "well_formed (advance_position l ch)"
    using assms by (simp add: well_formed_def)
  from feed_char_loop_total [OF this, of ch fl] show ?thesis
    by (auto simp add: json_lexer_feed_char_def extends_def)
qed

lemma json_lexer_feed_total:
  assumes "settled l"
  shows "\<exists>l'. json_lexer_feed l buffer = Some (Inr l') \<and> extends l l' \<and> settled l'"
  using assms
proof (induction buffer arbitrary: l)
  case Nil
  then show ?case by (simp add: extends_refl)
next
  case (Cons c buffer)
  from Cons.prems have "well_formed l" by (simp add: settled_def)
  from json_lexer_feed_char_total [OF this, of c False]
  obtain l1 where l1: "json_lexer_feed_char l c False = Some (Inr l1)" "extends l l1" "settled l1"
    by blast
  from Cons.IH [OF l1(3)] obtain l' where
    "json_lexer_feed l1 buffer = Some (Inr l')" "extends l1 l'" "settled l'" by blast
  with l1 show ?case by (auto intro: extends_trans)
qed

lemma json_lexer_flush_total:
  assumes "settled l"
  shows "\<exists>l'. json_lexer_flush l = Some (Inr l') \<and> extends l l' \<and> settled l' \<and>
           state l' = start_state l' \<and> token l' = [] \<and>
           (\<exists>pending. emitted l' = emitted l @ pending @
              [\<lparr>text_of = [], type_of = Tok JSON_END_OF_INPUT, x_of = x l', y_of = y l'\<rparr>])"
proof (cases "state l = start_state l")
  case True
  with assms have "token l = []" by (simp add: settled_def)
  with True assms show ?thesis
    by (simp add: json_lexer_flush_def json_message_process_token_def extends_def no_skip_def
        settled_def well_formed_def)
next
  case False
  from assms have wf: "well_formed l" by (simp add: settled_def)
  then obtain s where s: "state l = St s" by (auto simp add: well_formed_def)
  have z: "(\<exists>t. json_lexer s (of_char (CHR 0x00)) = Tok t) \<or>
           json_lexer s (of_char (CHR 0x00)) = St IN_ERROR"
    using json_lexer_cell_zero [of s] by simp
  from json_lexer_feed_char_total [OF wf, of "CHR 0x00" True] s z
  obtain l1 where l1: "json_lexer_feed_char l (CHR 0x00) True = Some (Inr l1)" "extends l l1"
      "settled l1" "state l1 = start_state l" "token l1 = []"
    by blast
  from l1(2) obtain new where new: "emitted l1 = emitted l @ new" "no_skip new"
      "start_state l1 = start_state l"
    by (auto simp add: extends_def)
  have "json_lexer_flush l = Some (Inr (json_message_process_token l1 []
          (Tok JSON_END_OF_INPUT) (x l1) (y l1)))"
    using False l1 by (simp add: json_lexer_flush_def)
  with l1 new show ?thesis
    by (auto simp add: json_message_process_token_def extends_def no_skip_def
        settled_def well_formed_def)
qed

lemma json_lexer_init_settled: "settled (json_lexer_init b)"
  by (simp add: settled_def well_formed_def json_lexer_init_def)

lemma run_total:
  assumes "settled l"
  shows "\<exists>l'. run l calls = Some (Inr l') \<and> extends l l' \<and> settled l'"
  using assms
proof (induction calls arbitrary: l)
  case Nil
  then show ?case by (simp add: extends_refl)
next
  case (Cons c calls)
  show ?case
  proof (cases c)
    case (Feed buffer)
    from json_lexer_feed_total [OF Cons.prems, of buffer]
    obtain l1 where l1: "json_lexer_feed l buffer = Some (Inr l1)" "extends l l1" "settled l1"
      by blast
    from Cons.IH [OF l1(3)] obtain l' where
      "run l1 calls = Some (Inr l')" "extends l1 l'" "settled l'" by blast
    with l1 Feed show ?thesis by (auto intro: extends_trans)
  next
    case Flush
    from json_lexer_flush_total [OF Cons.prems]
    obtain l1 where l1: "json_lexer_flush l = Some (Inr l1)" "extends l l1" "settled l1"
      by blast
    from Cons.IH [OF l1(3)] obtain l' where
      "run l1 calls = Some (Inr l')" "extends l1 l'" "settled l'" by blast
    with l1 Flush show ?thesis by (auto intro: extends_trans)
  qed
qed

subsection \<open>A lookahead transition\<close>

lemma lookahead_step:
  assumes "state l = St s" and "json_lexer s (of_char ch) = Tok t" and "json_lexer s 0 = Tok t"
    and "Tok t \<in> set token_cases \<or> t = JSON_SKIP"
  shows "feed_char_loop l ch False =
         feed_char_loop (l\<lparr>token := [], state := start_state l,
           emitted := emitted l @
             (if t = JSON_SKIP then []
              else [\<lparr>text_of = token l, type_of = Tok t, x_of = x l, y_of = y l\<rparr>])\<rparr>) ch False"
proof -
  let ?l' = "l\<lparr>token := [], state := start_state l,
           emitted := emitted l @
             (if t = JSON_SKIP then []
              else [\<lparr>text_of = token l, type_of = Tok t, x_of = x l, y_of = y l\<rparr>])\<rparr>"
  have it: "feed_char_iteration l ch False = Inr (Next ?l' False)"
    using assms
    by (auto simp add: feed_char_iteration_def TERMINAL_NEEDED_LOOKAHEAD_def Let_def
        json_message_process_token_def token_cases_def)
  have "feed_char_loop l ch False =
        (case feed_char_iteration l ch False of
           Inl e \<Rightarrow> Some (Inl e)
         | Inr (Return lexer') \<Rightarrow> Some (Inr lexer')
         | Inr (Next lexer' char_consumed) \<Rightarrow>
             if \<not> char_consumed \<and> \<not> False then feed_char_loop lexer' ch False
             else Some (Inr (token_size_check lexer')))"
    by (rule feed_char_loop.simps)
  also have "\<dots> = feed_char_loop ?l' ch False"
    by (simp add: it)
  finally show ?thesis .
qed

lemma terminal_row_cell:
  assumes "json_lexer_row s = TERMINAL t # overrides"
    and "i \<le> 0x7F"
    and "\<not> list_ex (\<lambda>ini. covers ini i) overrides"
  shows "json_lexer s i = Tok t"
proof -
  have "fold (apply_init i) ovs c = c" if "\<not> list_ex (\<lambda>ini. covers ini i) ovs" for ovs c
    using that by (induction ovs arbitrary: c) (simp_all add: apply_init_def)
  with assms show ?thesis
    by (simp add: json_lexer_def cell_of_def apply_init_def covers_def TERMINAL_def)
qed

lemma terminal_row_tags:
  assumes "json_lexer_row s = TERMINAL t # overrides"
  shows "s \<in> {IN_ZERO, IN_DIGITS, IN_MANTISSA_DIGITS, IN_EXP_DIGITS, IN_KEYWORD,
               IN_WHITESPACE, IN_INTERP} \<and>
         json_lexer s 0 = Tok t \<and> (Tok t \<in> set token_cases \<or> t = JSON_SKIP)"
  using assms
  by (cases s) (auto simp add: table_defs token_cases_def)

text \<open>In a row that begins with \<^verbatim>\<open>TERMINAL\<close>, a byte value up to 0x7F that the
  row does not override makes a well-formed instance report the buffer as a
  token of the row's tag (the skip tag unreported) and go on as the instance so
  reset does on the same byte.\<close>

lemma terminal_row_low_byte_lookahead:
  assumes "json_lexer_row s = TERMINAL t # overrides"
    and "of_char ch \<le> (0x7F :: nat)"
    and "\<not> list_ex (\<lambda>ini. covers ini (of_char ch)) overrides"
    and "state l = St s"
    and "well_formed l"
  shows "json_lexer s (of_char ch) = Tok t \<and>
         TERMINAL_NEEDED_LOOKAHEAD s (Tok t) \<and>
         (\<exists>l' more. json_lexer_feed_char l ch False = Some (Inr l') \<and>
            json_lexer_feed_char (l\<lparr>token := [], state := start_state l,
              emitted := emitted l @
                (if t = JSON_SKIP then []
                 else [\<lparr>text_of = token l, type_of = Tok t,
                         x_of = x (advance_position l ch),
                         y_of = y (advance_position l ch)\<rparr>])\<rparr>) ch False = Some (Inr l') \<and>
            emitted l' = emitted l @
                (if t = JSON_SKIP then []
                 else [\<lparr>text_of = token l, type_of = Tok t,
                         x_of = x (advance_position l ch),
                         y_of = y (advance_position l ch)\<rparr>]) @ more)"
proof -
  let ?reset = "l\<lparr>token := [], state := start_state l,
              emitted := emitted l @
                (if t = JSON_SKIP then []
                 else [\<lparr>text_of = token l, type_of = Tok t,
                         x_of = x (advance_position l ch),
                         y_of = y (advance_position l ch)\<rparr>])\<rparr>"
  have cell: "json_lexer s (of_char ch) = Tok t"
    using assms(1-3) by (rule terminal_row_cell)
  from terminal_row_tags [OF assms(1)] have
    zero: "json_lexer s 0 = Tok t" and kind: "Tok t \<in> set token_cases \<or> t = JSON_SKIP"
    by simp_all
  have la: "TERMINAL_NEEDED_LOOKAHEAD s (Tok t)"
    using zero by (simp add: TERMINAL_NEEDED_LOOKAHEAD_def)
  have st: "state (advance_position l ch) = St s"
    using assms(4) by simp
  have "json_lexer_feed_char l ch False = feed_char_loop (advance_position l ch) ch False"
    by (simp add: json_lexer_feed_char_def)
  also note lookahead_step [OF st cell zero kind]
  also have "feed_char_loop ((advance_position l ch)\<lparr>token := [],
               state := start_state (advance_position l ch),
               emitted := emitted (advance_position l ch) @
                 (if t = JSON_SKIP then []
                  else [\<lparr>text_of = token (advance_position l ch), type_of = Tok t,
                          x_of = x (advance_position l ch),
                          y_of = y (advance_position l ch)\<rparr>])\<rparr>) ch False =
             json_lexer_feed_char ?reset ch False"
    unfolding json_lexer_feed_char_def
    by (rule arg_cong [where f = "\<lambda>r. feed_char_loop r ch False"], cases l)
      (simp add: advance_position_def Let_def)
  finally have same: "json_lexer_feed_char l ch False = json_lexer_feed_char ?reset ch False" .
  have "well_formed ?reset"
    using assms(5) by (auto simp add: well_formed_def)
  from json_lexer_feed_char_total [OF this, of ch False] obtain l' where
    l': "json_lexer_feed_char ?reset ch False = Some (Inr l')" "extends ?reset l'" by blast
  from l'(2) obtain more where "emitted l' = emitted ?reset @ more"
    by (auto simp add: extends_def)
  then have "emitted l' = emitted l @
                (if t = JSON_SKIP then []
                 else [\<lparr>text_of = token l, type_of = Tok t,
                         x_of = x (advance_position l ch),
                         y_of = y (advance_position l ch)\<rparr>]) @ more"
    by simp
  with same l'(1) cell la show ?thesis by auto
qed

subsection \<open>A transition to the error state\<close>

lemma error_step:
  assumes "state l = St s" and "json_lexer s (of_char ch) = St IN_ERROR"
  shows "feed_char_loop l ch flush =
         Some (Inr (l\<lparr>token := [], state := start_state l,
           emitted := emitted l @
             [\<lparr>text_of = token l @ (if flush then [] else [ch]), type_of = Tok JSON_ERROR,
               x_of = x l, y_of = y l\<rparr>]\<rparr>))"
proof -
  let ?l' = "l\<lparr>token := [], state := start_state l,
           emitted := emitted l @
             [\<lparr>text_of = token l @ (if flush then [] else [ch]), type_of = Tok JSON_ERROR,
               x_of = x l, y_of = y l\<rparr>]\<rparr>"
  have it: "feed_char_iteration l ch flush = Inr (Return ?l')"
    using assms
    by (simp add: feed_char_iteration_def TERMINAL_NEEDED_LOOKAHEAD_def Let_def
        json_message_process_token_def token_cases_def)
  have "feed_char_loop l ch flush =
        (case feed_char_iteration l ch flush of
           Inl e \<Rightarrow> Some (Inl e)
         | Inr (Return lexer') \<Rightarrow> Some (Inr lexer')
         | Inr (Next lexer' char_consumed) \<Rightarrow>
             if \<not> char_consumed \<and> \<not> flush then feed_char_loop lexer' ch flush
             else Some (Inr (token_size_check lexer')))"
    by (rule feed_char_loop.simps)
  also have "\<dots> = Some (Inr ?l')"
    by (simp add: it)
  finally show ?thesis .
qed

subsection \<open>Feeding in pieces\<close>

lemma json_lexer_feed_single:
  "json_lexer_feed l [c] = json_lexer_feed_char l c False"
  by (simp split: option.splits sum.splits)

lemma json_lexer_feed_append:
  "json_lexer_feed l (a @ b) =
     (case json_lexer_feed l a of Some (Inr l') \<Rightarrow> json_lexer_feed l' b | r \<Rightarrow> r)"
  by (induction a arbitrary: l) (simp_all split: option.splits sum.splits)

subsection \<open>A byte that exceeds the size bound\<close>

lemma oversize_step:
  assumes "state l = St s" and "json_lexer s (of_char ch) = St s'" and "s' \<noteq> IN_ERROR"
    and "MAX_TOKEN_SIZE \<le> length (token l)"
  shows "feed_char_loop l ch False =
         Some (Inr (l\<lparr>token := [], state := start_state l,
           emitted := emitted l @
             [\<lparr>text_of = token l @ [ch], type_of = St s', x_of = x l, y_of = y l\<rparr>]\<rparr>))"
proof -
  have nl: "\<not> TERMINAL_NEEDED_LOOKAHEAD s (St s')"
    using json_lexer_cell_zero [of s] assms(3) by (auto simp add: TERMINAL_NEEDED_LOOKAHEAD_def)
  have it: "feed_char_iteration l ch False =
            Inr (Next (l\<lparr>token := token l @ [ch], state := St s'\<rparr>) True)"
    using assms(1-3) nl
    by (simp add: feed_char_iteration_def Let_def token_cases_def)
  have "feed_char_loop l ch False =
        (case feed_char_iteration l ch False of
           Inl e \<Rightarrow> Some (Inl e)
         | Inr (Return lexer') \<Rightarrow> Some (Inr lexer')
         | Inr (Next lexer' char_consumed) \<Rightarrow>
             if \<not> char_consumed \<and> \<not> False then feed_char_loop lexer' ch False
             else Some (Inr (token_size_check lexer')))"
    by (rule feed_char_loop.simps)
  also have "\<dots> = Some (Inr (token_size_check (l\<lparr>token := token l @ [ch], state := St s'\<rparr>)))"
    by (simp add: it)
  also have "token_size_check (l\<lparr>token := token l @ [ch], state := St s'\<rparr>) =
         l\<lparr>token := [], state := start_state l,
           emitted := emitted l @
             [\<lparr>text_of = token l @ [ch], type_of = St s', x_of = x l, y_of = y l\<rparr>]\<rparr>"
    using assms(4)
    by (simp add: token_size_check_def json_message_process_token_def Let_def)
  finally show ?thesis .
qed

subsection \<open>A byte that continues a token\<close>

lemma plain_step:
  assumes "state l = St s" and "json_lexer s (of_char ch) = St s'" and "s' \<noteq> IN_ERROR"
    and "length (token l) < MAX_TOKEN_SIZE"
  shows "feed_char_loop l ch False = Some (Inr (l\<lparr>token := token l @ [ch], state := St s'\<rparr>))"
proof -
  have nl: "\<not> TERMINAL_NEEDED_LOOKAHEAD s (St s')"
    using json_lexer_cell_zero [of s] assms(3) by (auto simp add: TERMINAL_NEEDED_LOOKAHEAD_def)
  have it: "feed_char_iteration l ch False =
            Inr (Next (l\<lparr>token := token l @ [ch], state := St s'\<rparr>) True)"
    using assms(1-3) nl
    by (simp add: feed_char_iteration_def Let_def token_cases_def)
  have "feed_char_loop l ch False =
        (case feed_char_iteration l ch False of
           Inl e \<Rightarrow> Some (Inl e)
         | Inr (Return lexer') \<Rightarrow> Some (Inr lexer')
         | Inr (Next lexer' char_consumed) \<Rightarrow>
             if \<not> char_consumed \<and> \<not> False then feed_char_loop lexer' ch False
             else Some (Inr (token_size_check lexer')))"
    by (rule feed_char_loop.simps)
  also have "\<dots> = Some (Inr (token_size_check (l\<lparr>token := token l @ [ch], state := St s'\<rparr>)))"
    by (simp add: it)
  also have "token_size_check (l\<lparr>token := token l @ [ch], state := St s'\<rparr>) =
         l\<lparr>token := token l @ [ch], state := St s'\<rparr>"
    using assms(4) by (simp add: token_size_check_def)
  finally show ?thesis .
qed

subsection \<open>Cells of single rows\<close>

lemma zero_row_cell:
  assumes "i \<le> 0x7F" and "i \<noteq> of_char (CHR ''.'')"
    and "\<not> (of_char (CHR ''0'') \<le> i \<and> i \<le> of_char (CHR ''9''))"
  shows "json_lexer IN_ZERO i = Tok JSON_INTEGER"
  using assms by (auto simp add: table_defs)

lemma escape_row_cells:
  assumes "0x20 \<le> i" and "i \<le> 0xFD"
  shows "json_lexer IN_DQ_STRING_ESCAPE i = St IN_DQ_STRING"
    and "json_lexer IN_SQ_STRING_ESCAPE i = St IN_SQ_STRING"
  using assms by (simp_all add: table_defs)

lemma skip_cell_row:
  "json_lexer s i = Tok JSON_SKIP \<Longrightarrow> s = IN_WHITESPACE"
  by (cases s) (simp_all add: table_defs split: if_splits)

subsection \<open>The state after a lookahead\<close>

lemma lookahead_resets:
  assumes "well_formed l" and "feed_char_iteration l ch flush = Inr (Next l1 False)"
  shows "state l1 = start_state l \<and> start_state l1 = start_state l \<and> token l1 = []"
proof -
  from assms(1) obtain s where s: "state l = St s" and
    st: "start_state l = St IN_START \<or> start_state l = St IN_START_INTERP"
    by (auto simp add: well_formed_def)
  from iteration_outcome [OF s st, of ch flush] assms(2) show ?thesis
    by (auto simp add: extends_def)
qed

subsection \<open>A start state that is not a start row\<close>

text \<open>The loop ends because the start state is a start row. Were the field
  \<^verbatim>\<open>start_state\<close> the row \<^verbatim>\<open>IN_ZERO\<close>, a comma in that state would be looked at
  again and again: the call would not return.\<close>

lemma zero_start_iteration:
  assumes "state l = St IN_ZERO" and "start_state l = St IN_ZERO"
  shows "\<exists>l'. feed_char_iteration l (CHR '','') False = Inr (Next l' False) \<and>
           state l' = St IN_ZERO \<and> start_state l' = St IN_ZERO"
  using assms
  by (simp add: feed_char_iteration_def TERMINAL_NEEDED_LOOKAHEAD_def Let_def token_cases_def
      json_message_process_token_def table_defs)

lemma ill_formed_start_state_diverges:
  assumes "state l = St IN_ZERO" and "start_state l = St IN_ZERO"
  shows "feed_char_loop l (CHR '','') False = None"
proof -
  let ?stuck = "\<lambda>(l :: JSONLexer) (ch :: char) (fl :: bool) (r :: error + JSONLexer).
    \<not> (state l = St IN_ZERO \<and> start_state l = St IN_ZERO \<and> ch = CHR '','' \<and> fl = False)"
  have step: "?stuck l ch fl r"
    if IH: "\<And>l ch fl r. loop l ch fl = Some r \<Longrightarrow> ?stuck l ch fl r"
      and body: "(case feed_char_iteration l ch fl of
           Inl e \<Rightarrow> Some (Inl e)
         | Inr (Return lexer') \<Rightarrow> Some (Inr lexer')
         | Inr (Next lexer' char_consumed) \<Rightarrow>
             if \<not> char_consumed \<and> \<not> fl then loop lexer' ch fl
             else Some (Inr (token_size_check lexer'))) = Some r"
    for loop l ch fl r
  proof
    assume bad: "state l = St IN_ZERO \<and> start_state l = St IN_ZERO \<and> ch = CHR '','' \<and> fl = False"
    with zero_start_iteration [of l] obtain l' where
      l': "feed_char_iteration l ch fl = Inr (Next l' False)"
        "state l' = St IN_ZERO" "start_state l' = St IN_ZERO"
      by auto
    with body bad have "loop l' ch fl = Some r" by simp
    from IH [OF this] l'(2,3) bad show False by simp
  qed
  have "?stuck l ch fl r" if "feed_char_loop l ch fl = Some r" for l ch fl r
    using step that by (rule feed_char_loop.raw_induct [where P = ?stuck])
  with assms show ?thesis
    by (cases "feed_char_loop l (CHR '','') False") auto
qed
subsection \<open>Evaluation on concrete inputs\<close>

lemma feed_char_loop_eval:
  "feed_char_loop_bounded (Suc (Suc 0)) l ch fl \<noteq> None \<Longrightarrow>
   feed_char_loop l ch fl = feed_char_loop_bounded (Suc (Suc 0)) l ch fl"
  using feed_char_loop_bounded_sound [of "Suc (Suc 0)" l ch fl]
  by (cases "feed_char_loop_bounded (Suc (Suc 0)) l ch fl")
    (simp_all del: feed_char_loop_bounded.simps)

lemmas eval_defs = json_lexer_feed_char_def advance_position_def feed_char_iteration_def
  token_size_check_def json_message_process_token_def json_lexer_init_def token_cases_def
  json_lexer_flush_def TERMINAL_NEEDED_LOOKAHEAD_def MAX_TOKEN_SIZE_def Let_def table_defs
  feed_char_loop_eval

section \<open>Properties of the lexer\<close>

subsection \<open>Lookahead\<close>

text \<open>C1: The two bytes \<^verbatim>\<open>0\<close> and \<^verbatim>\<open>,\<close>, fed in one call or in two calls of one byte
  each, with or without interpolation, make the lexer report exactly an integer
  token with the text \<^verbatim>\<open>0\<close> and then a comma token. The comma is the lookahead of
  the row \<^verbatim>\<open>IN_ZERO\<close>: it is not appended to the integer, and it is processed
  again from the start state, where it becomes the comma token.\<close>

theorem lookahead_zero_comma:
  "json_lexer_feed (json_lexer_init b) ''0,'' =
     Some (Inr ((json_lexer_init b)\<lparr>x := 2, emitted :=
       [\<lparr>text_of = ''0'', type_of = Tok JSON_INTEGER, x_of = 2, y_of = 0\<rparr>,
        \<lparr>text_of = '','', type_of = Tok JSON_COMMA, x_of = 2, y_of = 0\<rparr>]\<rparr>)) \<and>
   (case json_lexer_feed (json_lexer_init b) ''0'' of
      Some (Inr l) \<Rightarrow> json_lexer_feed l '',''
    | r \<Rightarrow> r) =
     Some (Inr ((json_lexer_init b)\<lparr>x := 2, emitted :=
       [\<lparr>text_of = ''0'', type_of = Tok JSON_INTEGER, x_of = 2, y_of = 0\<rparr>,
        \<lparr>text_of = '','', type_of = Tok JSON_COMMA, x_of = 2, y_of = 0\<rparr>]\<rparr>)) \<and>
   json_lexer IN_ZERO (of_char (CHR '','')) = Tok JSON_INTEGER \<and>
   TERMINAL_NEEDED_LOOKAHEAD IN_ZERO (Tok JSON_INTEGER)"
  by (cases b) (simp_all add: eval_defs)

text \<open>C2: In a row that begins with \<^verbatim>\<open>TERMINAL\<close>, every byte that no later
  initializer of the row overrides is to complete the accumulated buffer as a
  token of the row's tag without being consumed, and to be processed again
  from the start state. The byte 0x7F does so: after \<^verbatim>\<open>0\<close> the integer token \<^verbatim>\<open>0\<close>
  is reported and then the byte alone as an error token, and likewise after
  \<^verbatim>\<open>true\<close>. The byte 0x80 is not overridden in the row \<^verbatim>\<open>IN_ZERO\<close> either, but
  \<^verbatim>\<open>TERMINAL\<close> fills the cells 0x00 to 0x7F only: its cell is \<^verbatim>\<open>IN_ERROR\<close>, the
  byte is appended to the buffer, and the lexer reports a single error token
  with the text \<^verbatim>\<open>0\<close> followed by 0x80 and no integer token; after \<^verbatim>\<open>true\<close> the byte
  0xC2 is folded into one error token in the same way.\<close>

theorem terminal_row_high_byte_folds_token:
  "json_lexer_row IN_ZERO =
     TERMINAL JSON_INTEGER #
       [range_init (CHR ''0'') (CHR ''9'') (St IN_ERROR), at_init (CHR ''.'') (St IN_MANTISSA)] \<and>
   \<not> list_ex (\<lambda>ini. covers ini (of_char (CHR 0x80)))
       [range_init (CHR ''0'') (CHR ''9'') (St IN_ERROR), at_init (CHR ''.'') (St IN_MANTISSA)] \<and>
   \<not> list_ex (\<lambda>ini. covers ini (of_char (CHR 0x7F)))
       [range_init (CHR ''0'') (CHR ''9'') (St IN_ERROR), at_init (CHR ''.'') (St IN_MANTISSA)] \<and>
   json_lexer IN_ZERO (of_char (CHR 0x80)) = St IN_ERROR \<and>
   json_lexer IN_ZERO (of_char (CHR 0x7F)) = Tok JSON_INTEGER \<and>
   json_lexer_feed (json_lexer_init False) [CHR ''0'', CHR 0x80] =
     Some (Inr ((json_lexer_init False)\<lparr>x := 2, emitted :=
       [\<lparr>text_of = [CHR ''0'', CHR 0x80], type_of = Tok JSON_ERROR, x_of = 2, y_of = 0\<rparr>]\<rparr>)) \<and>
   json_lexer_feed (json_lexer_init False) [CHR ''0'', CHR 0x7F] =
     Some (Inr ((json_lexer_init False)\<lparr>x := 2, emitted :=
       [\<lparr>text_of = ''0'', type_of = Tok JSON_INTEGER, x_of = 2, y_of = 0\<rparr>,
        \<lparr>text_of = [CHR 0x7F], type_of = Tok JSON_ERROR, x_of = 2, y_of = 0\<rparr>]\<rparr>)) \<and>
   json_lexer_feed (json_lexer_init False) [CHR ''t'', CHR ''r'', CHR ''u'', CHR ''e'', CHR 0xC2] =
     Some (Inr ((json_lexer_init False)\<lparr>x := 5, emitted :=
       [\<lparr>text_of = [CHR ''t'', CHR ''r'', CHR ''u'', CHR ''e'', CHR 0xC2],
          type_of = Tok JSON_ERROR, x_of = 5, y_of = 0\<rparr>]\<rparr>)) \<and>
   json_lexer_feed (json_lexer_init False) [CHR ''t'', CHR ''r'', CHR ''u'', CHR ''e'', CHR 0x7F] =
     Some (Inr ((json_lexer_init False)\<lparr>x := 5, emitted :=
       [\<lparr>text_of = ''true'', type_of = Tok JSON_KEYWORD, x_of = 5, y_of = 0\<rparr>,
        \<lparr>text_of = [CHR 0x7F], type_of = Tok JSON_ERROR, x_of = 5, y_of = 0\<rparr>]\<rparr>))"
  by (simp add: eval_defs)

subsection \<open>Errors\<close>

text \<open>C3: In every lexer state, a byte whose cell is \<^verbatim>\<open>IN_ERROR\<close> makes the call
  return normally (no assertion fails, the loop ends): the byte is appended to
  the buffer unless the call is a flush, the consumer is called exactly once,
  with the buffer, the tag \<^verbatim>\<open>JSON_ERROR\<close> and the position, the buffer is emptied
  and the state is the start state. This holds for the loop from any state, so
  also when the error arises on the second pass after a lookahead. The bytes
  that follow are fed to an instance in its start state with an empty
  buffer.\<close>

theorem error_transition_reports_and_resets:
  assumes "state l = St s" and "json_lexer s (of_char ch) = St IN_ERROR"
  shows "feed_char_loop l ch flush =
           Some (Inr (l\<lparr>token := [], state := start_state l,
             emitted := emitted l @
               [\<lparr>text_of = token l @ (if flush then [] else [ch]), type_of = Tok JSON_ERROR,
                 x_of = x l, y_of = y l\<rparr>]\<rparr>)) \<and>
         json_lexer_feed_char l ch flush =
           Some (Inr ((advance_position l ch)\<lparr>token := [], state := start_state l,
             emitted := emitted l @
               [\<lparr>text_of = token l @ (if flush then [] else [ch]), type_of = Tok JSON_ERROR,
                 x_of = x (advance_position l ch), y_of = y (advance_position l ch)\<rparr>]\<rparr>)) \<and>
         json_lexer_feed l (ch # rest) =
           json_lexer_feed ((advance_position l ch)\<lparr>token := [], state := start_state l,
             emitted := emitted l @
               [\<lparr>text_of = token l @ [ch], type_of = Tok JSON_ERROR,
                 x_of = x (advance_position l ch), y_of = y (advance_position l ch)\<rparr>]\<rparr>) rest"
proof -
  have st: "state (advance_position l ch) = St s"
    using assms(1) by simp
  have fc: "json_lexer_feed_char l ch fl =
           Some (Inr ((advance_position l ch)\<lparr>token := [], state := start_state l,
             emitted := emitted l @
               [\<lparr>text_of = token l @ (if fl then [] else [ch]), type_of = Tok JSON_ERROR,
                 x_of = x (advance_position l ch), y_of = y (advance_position l ch)\<rparr>]\<rparr>))" for fl
    unfolding json_lexer_feed_char_def
    using error_step [OF st assms(2), of fl] by simp
  show ?thesis
    using error_step [OF assms, of flush] fc [of flush] fc [of False] by simp
qed

text \<open>The theorem at the byte 0xFF in the start state, followed by \<^verbatim>\<open>1,\<close>.\<close>

theorem error_transition_reports_and_resets_witness:
  "json_lexer IN_START (of_char (CHR 0xFF)) = St IN_ERROR \<and>
   json_lexer_feed_char (json_lexer_init False) (CHR 0xFF) False =
     Some (Inr ((json_lexer_init False)\<lparr>x := 1, emitted :=
       [\<lparr>text_of = [CHR 0xFF], type_of = Tok JSON_ERROR, x_of = 1, y_of = 0\<rparr>]\<rparr>)) \<and>
   json_lexer_feed (json_lexer_init False) [CHR 0xFF, CHR ''1'', CHR '',''] =
     Some (Inr ((json_lexer_init False)\<lparr>x := 3, emitted :=
       [\<lparr>text_of = [CHR 0xFF], type_of = Tok JSON_ERROR, x_of = 1, y_of = 0\<rparr>,
        \<lparr>text_of = ''1'', type_of = Tok JSON_INTEGER, x_of = 3, y_of = 0\<rparr>,
        \<lparr>text_of = '','', type_of = Tok JSON_COMMA, x_of = 3, y_of = 0\<rparr>]\<rparr>))"
  using error_transition_reports_and_resets [of "json_lexer_init False" IN_START "CHR 0xFF"
      False "[CHR ''1'', CHR '','']"]
  by (simp add: eval_defs)

subsection \<open>Chunking\<close>

text \<open>C4: For every instance and every byte sequence, one call of
  \<^verbatim>\<open>json_lexer_feed\<close> per byte leaves the same instance, and so the same sequence
  of reported tokens with their tags, texts and positions, as a single call
  with the whole sequence; the same holds for any split of the sequence in two
  calls. From a fresh instance every such call returns.\<close>

theorem chunk_size_invariance:
  "feed_bytewise l buffer = json_lexer_feed l buffer \<and>
   (case json_lexer_feed l a of Some (Inr l') \<Rightarrow> json_lexer_feed l' b | r \<Rightarrow> r) =
     json_lexer_feed l (a @ b) \<and>
   (\<exists>l'. json_lexer_feed (json_lexer_init enable_interpolation) buffer = Some (Inr l'))"
proof -
  have "feed_bytewise l buffer = json_lexer_feed l buffer"
  proof (induction buffer arbitrary: l)
    case Nil
    show ?case by simp
  next
    case (Cons c buffer)
    show ?case
      by (simp add: Cons.IH split: option.splits sum.splits)
  qed
  moreover have "\<exists>l'. json_lexer_feed (json_lexer_init enable_interpolation) buffer = Some (Inr l')"
    using json_lexer_feed_total [OF json_lexer_init_settled] by blast
  ultimately show ?thesis
    by (simp add: json_lexer_feed_append)
qed

subsection \<open>End of input\<close>

text \<open>C5: A flush after feeding \<^verbatim>\<open>12\<close> reports an integer token with the text
  \<^verbatim>\<open>12\<close> and then an end-of-input token; a flush after feeding \<^verbatim>\<open>1e\<close> reports an
  error token and then an end-of-input token. After any sequence of feed and
  flush calls on a fresh instance, a flush returns, and the last token it
  reports is the end-of-input token, with an empty text and the position of
  the instance, whether or not a token was pending.\<close>

theorem flush_end_of_input:
  "(case json_lexer_feed (json_lexer_init b) ''12'' of
      Some (Inr l) \<Rightarrow> json_lexer_flush l
    | r \<Rightarrow> r) =
     Some (Inr ((json_lexer_init b)\<lparr>x := 3, emitted :=
       [\<lparr>text_of = ''12'', type_of = Tok JSON_INTEGER, x_of = 3, y_of = 0\<rparr>,
        \<lparr>text_of = [], type_of = Tok JSON_END_OF_INPUT, x_of = 3, y_of = 0\<rparr>]\<rparr>)) \<and>
   (case json_lexer_feed (json_lexer_init b) ''1e'' of
      Some (Inr l) \<Rightarrow> json_lexer_flush l
    | r \<Rightarrow> r) =
     Some (Inr ((json_lexer_init b)\<lparr>x := 3, emitted :=
       [\<lparr>text_of = ''1e'', type_of = Tok JSON_ERROR, x_of = 3, y_of = 0\<rparr>,
        \<lparr>text_of = [], type_of = Tok JSON_END_OF_INPUT, x_of = 3, y_of = 0\<rparr>]\<rparr>)) \<and>
   (\<exists>l l'. run (json_lexer_init b) calls = Some (Inr l) \<and>
      json_lexer_flush l = Some (Inr l') \<and>
      (\<exists>pending. emitted l' = emitted l @ pending @
         [\<lparr>text_of = [], type_of = Tok JSON_END_OF_INPUT, x_of = x l', y_of = y l'\<rparr>]))"
proof -
  from run_total [OF json_lexer_init_settled, of b calls] obtain l where
    l: "run (json_lexer_init b) calls = Some (Inr l)" "settled l" by blast
  from json_lexer_flush_total [OF l(2)] l(1)
  have "\<exists>l l'. run (json_lexer_init b) calls = Some (Inr l) \<and>
      json_lexer_flush l = Some (Inr l') \<and>
      (\<exists>pending. emitted l' = emitted l @ pending @
         [\<lparr>text_of = [], type_of = Tok JSON_END_OF_INPUT, x_of = x l', y_of = y l'\<rparr>])"
    by blast
  moreover have "(case json_lexer_feed (json_lexer_init b) ''12'' of
      Some (Inr l) \<Rightarrow> json_lexer_flush l
    | r \<Rightarrow> r) =
     Some (Inr ((json_lexer_init b)\<lparr>x := 3, emitted :=
       [\<lparr>text_of = ''12'', type_of = Tok JSON_INTEGER, x_of = 3, y_of = 0\<rparr>,
        \<lparr>text_of = [], type_of = Tok JSON_END_OF_INPUT, x_of = 3, y_of = 0\<rparr>]\<rparr>))"
    by (cases b) (simp_all add: eval_defs)
  moreover have "(case json_lexer_feed (json_lexer_init b) ''1e'' of
      Some (Inr l) \<Rightarrow> json_lexer_flush l
    | r \<Rightarrow> r) =
     Some (Inr ((json_lexer_init b)\<lparr>x := 3, emitted :=
       [\<lparr>text_of = ''1e'', type_of = Tok JSON_ERROR, x_of = 3, y_of = 0\<rparr>,
        \<lparr>text_of = [], type_of = Tok JSON_END_OF_INPUT, x_of = 3, y_of = 0\<rparr>]\<rparr>))"
    by (cases b) (simp_all add: eval_defs)
  ultimately show ?thesis by blast
qed

subsection \<open>The size bound\<close>

text \<open>C6: After every sequence of feed and flush calls on a fresh instance the
  token buffer holds at most \<open>64 * 2^20\<close> bytes, and every call for one byte on a
  well-formed instance leaves it within that bound. When a byte is appended to
  a buffer that already holds that many bytes and the lexer stays inside a
  token, the buffer with that byte is reported as one token tagged with the
  current state, the buffer is emptied and the state is the start state.\<close>

theorem token_buffer_bounded:
  "(\<exists>l. run (json_lexer_init b) calls = Some (Inr l) \<and> length (token l) \<le> MAX_TOKEN_SIZE) \<and>
   (well_formed l \<longrightarrow>
      (\<exists>l'. json_lexer_feed_char l ch flush = Some (Inr l') \<and>
         length (token l') \<le> MAX_TOKEN_SIZE)) \<and>
   (state l = St s \<and> json_lexer s (of_char ch) = St s' \<and> s' \<noteq> IN_ERROR \<and>
    MAX_TOKEN_SIZE \<le> length (token l) \<longrightarrow>
      json_lexer_feed_char l ch False =
        Some (Inr ((advance_position l ch)\<lparr>token := [], state := start_state l,
          emitted := emitted l @
            [\<lparr>text_of = token l @ [ch], type_of = St s',
              x_of = x (advance_position l ch), y_of = y (advance_position l ch)\<rparr>]\<rparr>)))"
proof -
  have "\<exists>l. run (json_lexer_init b) calls = Some (Inr l) \<and> length (token l) \<le> MAX_TOKEN_SIZE"
    using run_total [OF json_lexer_init_settled, of b calls] by (auto simp add: settled_def)
  moreover have "\<exists>l'. json_lexer_feed_char l ch flush = Some (Inr l') \<and>
         length (token l') \<le> MAX_TOKEN_SIZE" if "well_formed l"
    using json_lexer_feed_char_total [OF that, of ch flush] by (auto simp add: settled_def)
  moreover have "json_lexer_feed_char l ch False =
        Some (Inr ((advance_position l ch)\<lparr>token := [], state := start_state l,
          emitted := emitted l @
            [\<lparr>text_of = token l @ [ch], type_of = St s',
              x_of = x (advance_position l ch), y_of = y (advance_position l ch)\<rparr>]\<rparr>))"
    if "state l = St s" "json_lexer s (of_char ch) = St s'" "s' \<noteq> IN_ERROR"
      "MAX_TOKEN_SIZE \<le> length (token l)"
    unfolding json_lexer_feed_char_def
    using oversize_step [of "advance_position l ch" s ch s'] that by simp
  ultimately show ?thesis by blast
qed

text \<open>The theorem after \<^verbatim>\<open>[12\<close> and a flush, and at a keyword of \<open>64 * 2^20\<close> letters
  that receives one more letter.\<close>

theorem token_buffer_bounded_witness:
  "(\<exists>l. run (json_lexer_init False) [Feed ''[12'', Flush] = Some (Inr l) \<and>
      length (token l) \<le> MAX_TOKEN_SIZE) \<and>
   well_formed ((json_lexer_init False)\<lparr>state := St IN_KEYWORD,
        token := replicate MAX_TOKEN_SIZE (CHR ''a'')\<rparr>) \<and>
   json_lexer IN_KEYWORD (of_char (CHR ''a'')) = St IN_KEYWORD \<and>
   json_lexer_feed_char
     ((json_lexer_init False)\<lparr>state := St IN_KEYWORD,
        token := replicate MAX_TOKEN_SIZE (CHR ''a'')\<rparr>) (CHR ''a'') False =
     Some (Inr ((json_lexer_init False)\<lparr>x := 1, emitted :=
       [\<lparr>text_of = replicate MAX_TOKEN_SIZE (CHR ''a'') @ ''a'', type_of = St IN_KEYWORD,
          x_of = 1, y_of = 0\<rparr>]\<rparr>))"
  using token_buffer_bounded [of False "[Feed ''[12'', Flush]"
      "(json_lexer_init False)\<lparr>state := St IN_KEYWORD,
        token := replicate MAX_TOKEN_SIZE (CHR ''a'')\<rparr>" "CHR ''a''" False IN_KEYWORD IN_KEYWORD]
  by (simp add: table_defs json_lexer_init_def advance_position_def well_formed_def)

subsection \<open>Numbers that begin with zero\<close>

text \<open>C7: A leading \<^verbatim>\<open>0\<close> enters the state \<^verbatim>\<open>IN_ZERO\<close>. From there \<^verbatim>\<open>.\<close> leads to
  \<^verbatim>\<open>IN_MANTISSA\<close> and a digit leads to \<^verbatim>\<open>IN_ERROR\<close>: the input \<^verbatim>\<open>01\<close> is reported as
  one error token and no integer token. Every other byte value up to 0x7F has
  the cell \<^verbatim>\<open>JSON_INTEGER\<close>, reached with lookahead: fed after a lone \<^verbatim>\<open>0\<close>, it makes
  the lexer report first an integer token with the text \<^verbatim>\<open>0\<close>, at the position
  of that byte.\<close>

theorem zero_state_transitions:
  "json_lexer IN_START (of_char (CHR ''0'')) = St IN_ZERO \<and>
   json_lexer IN_START_INTERP (of_char (CHR ''0'')) = St IN_ZERO \<and>
   json_lexer IN_ZERO (of_char (CHR ''.'')) = St IN_MANTISSA \<and>
   (of_char (CHR ''0'') \<le> (of_char d :: nat) \<and> (of_char d :: nat) \<le> of_char (CHR ''9'') \<longrightarrow>
      json_lexer IN_ZERO (of_char d) = St IN_ERROR) \<and>
   json_lexer_feed (json_lexer_init b) ''01'' =
     Some (Inr ((json_lexer_init b)\<lparr>x := 2, emitted :=
       [\<lparr>text_of = ''01'', type_of = Tok JSON_ERROR, x_of = 2, y_of = 0\<rparr>]\<rparr>)) \<and>
   ((of_char ch :: nat) \<le> 0x7F \<and> (of_char ch :: nat) \<noteq> of_char (CHR ''.'') \<and>
    \<not> (of_char (CHR ''0'') \<le> (of_char ch :: nat) \<and> (of_char ch :: nat) \<le> of_char (CHR ''9'')) \<longrightarrow>
      json_lexer IN_ZERO (of_char ch) = Tok JSON_INTEGER \<and>
      TERMINAL_NEEDED_LOOKAHEAD IN_ZERO (Tok JSON_INTEGER) \<and>
      (\<exists>l' more. json_lexer_feed (json_lexer_init b) [CHR ''0'', ch] = Some (Inr l') \<and>
         emitted l' =
           \<lparr>text_of = ''0'', type_of = Tok JSON_INTEGER,
             x_of = x (advance_position ((json_lexer_init b)\<lparr>x := 1\<rparr>) ch),
             y_of = y (advance_position ((json_lexer_init b)\<lparr>x := 1\<rparr>) ch)\<rparr> # more))"
proof -
  let ?l0 = "(json_lexer_init b)\<lparr>x := 1, state := St IN_ZERO, token := ''0''\<rparr>"
  have cells: "json_lexer IN_START (of_char (CHR ''0'')) = St IN_ZERO"
    "json_lexer IN_START_INTERP (of_char (CHR ''0'')) = St IN_ZERO"
    "json_lexer IN_ZERO (of_char (CHR ''.'')) = St IN_MANTISSA"
    "json_lexer IN_ZERO 0 = Tok JSON_INTEGER"
    by (simp_all add: table_defs)
  have digit: "json_lexer IN_ZERO (of_char d) = St IN_ERROR"
    if "of_char (CHR ''0'') \<le> (of_char d :: nat) \<and> (of_char d :: nat) \<le> of_char (CHR ''9'')"
    using that by (auto simp add: table_defs)
  have leading: "json_lexer_feed (json_lexer_init b) ''01'' =
     Some (Inr ((json_lexer_init b)\<lparr>x := 2, emitted :=
       [\<lparr>text_of = ''01'', type_of = Tok JSON_ERROR, x_of = 2, y_of = 0\<rparr>]\<rparr>))"
    by (cases b) (simp_all add: eval_defs)
  have first: "json_lexer_feed_char (json_lexer_init b) (CHR ''0'') False = Some (Inr ?l0)"
    by (cases b) (simp_all add: eval_defs)
  have other: "json_lexer IN_ZERO (of_char ch) = Tok JSON_INTEGER \<and>
      TERMINAL_NEEDED_LOOKAHEAD IN_ZERO (Tok JSON_INTEGER) \<and>
      (\<exists>l' more. json_lexer_feed (json_lexer_init b) [CHR ''0'', ch] = Some (Inr l') \<and>
         emitted l' =
           \<lparr>text_of = ''0'', type_of = Tok JSON_INTEGER,
             x_of = x (advance_position ((json_lexer_init b)\<lparr>x := 1\<rparr>) ch),
             y_of = y (advance_position ((json_lexer_init b)\<lparr>x := 1\<rparr>) ch)\<rparr> # more)"
    if h: "(of_char ch :: nat) \<le> 0x7F" "(of_char ch :: nat) \<noteq> of_char (CHR ''.'')"
      "\<not> (of_char (CHR ''0'') \<le> (of_char ch :: nat) \<and> (of_char ch :: nat) \<le> of_char (CHR ''9''))"
  proof -
    let ?tok = "\<lparr>text_of = ''0'', type_of = Tok JSON_INTEGER,
             x_of = x (advance_position ((json_lexer_init b)\<lparr>x := 1\<rparr>) ch),
             y_of = y (advance_position ((json_lexer_init b)\<lparr>x := 1\<rparr>) ch)\<rparr>"
    let ?l1 = "(advance_position ?l0 ch)\<lparr>token := [],
           state := start_state (advance_position ?l0 ch),
           emitted := emitted (advance_position ?l0 ch) @
             (if JSON_INTEGER = JSON_SKIP then []
              else [\<lparr>text_of = token (advance_position ?l0 ch), type_of = Tok JSON_INTEGER,
                      x_of = x (advance_position ?l0 ch), y_of = y (advance_position ?l0 ch)\<rparr>])\<rparr>"
    have cell: "json_lexer IN_ZERO (of_char ch) = Tok JSON_INTEGER"
      using h by (rule zero_row_cell)
    have la: "TERMINAL_NEEDED_LOOKAHEAD IN_ZERO (Tok JSON_INTEGER)"
      using cells(4) by (simp add: TERMINAL_NEEDED_LOOKAHEAD_def)
    have st: "state (advance_position ?l0 ch) = St IN_ZERO" by simp
    have step: "feed_char_loop (advance_position ?l0 ch) ch False = feed_char_loop ?l1 ch False"
      by (rule lookahead_step [OF st cell cells(4)]) (simp add: token_cases_def)
    have wf: "well_formed ?l1"
      by (simp add: well_formed_def json_lexer_init_def)
    have em: "emitted ?l1 = [?tok]"
      by (simp add: json_lexer_init_def advance_position_def Let_def)
    from feed_char_loop_total [OF wf, of ch False] obtain l' where
      l': "feed_char_loop ?l1 ch False = Some (Inr l')" "extends ?l1 l'" by blast
    from l'(2) em obtain more where "emitted l' = ?tok # more"
      by (auto simp add: extends_def)
    moreover have "json_lexer_feed (json_lexer_init b) [CHR ''0'', ch] = Some (Inr l')"
      using first step l'(1) by (simp add: json_lexer_feed_char_def)
    ultimately show ?thesis using cell la by blast
  qed
  from cells(1-3) digit leading other show ?thesis by blast
qed

text \<open>The theorem at the digit \<^verbatim>\<open>1\<close> and at a space after \<^verbatim>\<open>0\<close>.\<close>

theorem zero_state_transitions_witness:
  "json_lexer IN_ZERO (of_char (CHR ''1'')) = St IN_ERROR \<and>
   json_lexer IN_ZERO (of_char (CHR '' '')) = Tok JSON_INTEGER \<and>
   (\<exists>l' more. json_lexer_feed (json_lexer_init False) ''0 '' = Some (Inr l') \<and>
      emitted l' = \<lparr>text_of = ''0'', type_of = Tok JSON_INTEGER, x_of = 2, y_of = 0\<rparr> # more)"
  using zero_state_transitions [of "CHR ''1''" False "CHR '' ''"]
  by (simp add: json_lexer_init_def advance_position_def)

subsection \<open>Escapes in strings\<close>

text \<open>C8: In the escape state of a double-quoted or of a single-quoted string,
  every byte from 0x20 to 0xFD, whichever it is (a quote of either kind and the
  backslash included), leads back to the string state of the same kind; the
  byte is appended to the buffer and nothing is reported. The six bytes
  \<^verbatim>\<open>"a\"b"\<close> are reported as exactly one string token whose text is these six
  bytes, and the five bytes \<^verbatim>\<open>'a"b'\<close> as exactly one string token.\<close>

theorem escape_returns_to_string:
  "((0x20 :: nat) \<le> of_char ch \<and> (of_char ch :: nat) \<le> 0xFD \<longrightarrow>
      json_lexer IN_DQ_STRING_ESCAPE (of_char ch) = St IN_DQ_STRING \<and>
      json_lexer IN_SQ_STRING_ESCAPE (of_char ch) = St IN_SQ_STRING \<and>
      (length (token l) < MAX_TOKEN_SIZE \<longrightarrow>
        (state l = St IN_DQ_STRING_ESCAPE \<longrightarrow>
           json_lexer_feed_char l ch False =
             Some (Inr ((advance_position l ch)\<lparr>token := token l @ [ch],
                          state := St IN_DQ_STRING\<rparr>))) \<and>
        (state l = St IN_SQ_STRING_ESCAPE \<longrightarrow>
           json_lexer_feed_char l ch False =
             Some (Inr ((advance_position l ch)\<lparr>token := token l @ [ch],
                          state := St IN_SQ_STRING\<rparr>))))) \<and>
   json_lexer_feed (json_lexer_init b) [CHR 0x22, CHR ''a'', CHR 0x5C, CHR 0x22, CHR ''b'', CHR 0x22] =
     Some (Inr ((json_lexer_init b)\<lparr>x := 6, emitted :=
       [\<lparr>text_of = [CHR 0x22, CHR ''a'', CHR 0x5C, CHR 0x22, CHR ''b'', CHR 0x22],
          type_of = Tok JSON_STRING, x_of = 6, y_of = 0\<rparr>]\<rparr>)) \<and>
   json_lexer_feed (json_lexer_init b) [CHR 0x27, CHR ''a'', CHR 0x22, CHR ''b'', CHR 0x27] =
     Some (Inr ((json_lexer_init b)\<lparr>x := 5, emitted :=
       [\<lparr>text_of = [CHR 0x27, CHR ''a'', CHR 0x22, CHR ''b'', CHR 0x27],
          type_of = Tok JSON_STRING, x_of = 5, y_of = 0\<rparr>]\<rparr>))"
proof -
  have dq: "json_lexer_feed_char l ch False =
             Some (Inr ((advance_position l ch)\<lparr>token := token l @ [ch],
                          state := St IN_DQ_STRING\<rparr>))"
    if "(0x20 :: nat) \<le> of_char ch" "(of_char ch :: nat) \<le> 0xFD"
      "length (token l) < MAX_TOKEN_SIZE" "state l = St IN_DQ_STRING_ESCAPE"
    unfolding json_lexer_feed_char_def
    using plain_step [of "advance_position l ch" IN_DQ_STRING_ESCAPE ch IN_DQ_STRING]
      escape_row_cells(1) [of "of_char ch"] that by simp
  have sq: "json_lexer_feed_char l ch False =
             Some (Inr ((advance_position l ch)\<lparr>token := token l @ [ch],
                          state := St IN_SQ_STRING\<rparr>))"
    if "(0x20 :: nat) \<le> of_char ch" "(of_char ch :: nat) \<le> 0xFD"
      "length (token l) < MAX_TOKEN_SIZE" "state l = St IN_SQ_STRING_ESCAPE"
    unfolding json_lexer_feed_char_def
    using plain_step [of "advance_position l ch" IN_SQ_STRING_ESCAPE ch IN_SQ_STRING]
      escape_row_cells(2) [of "of_char ch"] that by simp
  have ex1: "json_lexer_feed (json_lexer_init b)
       [CHR 0x22, CHR ''a'', CHR 0x5C, CHR 0x22, CHR ''b'', CHR 0x22] =
     Some (Inr ((json_lexer_init b)\<lparr>x := 6, emitted :=
       [\<lparr>text_of = [CHR 0x22, CHR ''a'', CHR 0x5C, CHR 0x22, CHR ''b'', CHR 0x22],
          type_of = Tok JSON_STRING, x_of = 6, y_of = 0\<rparr>]\<rparr>))"
    by (cases b) (simp_all add: eval_defs)
  have ex2: "json_lexer_feed (json_lexer_init b)
       [CHR 0x27, CHR ''a'', CHR 0x22, CHR ''b'', CHR 0x27] =
     Some (Inr ((json_lexer_init b)\<lparr>x := 5, emitted :=
       [\<lparr>text_of = [CHR 0x27, CHR ''a'', CHR 0x22, CHR ''b'', CHR 0x27],
          type_of = Tok JSON_STRING, x_of = 5, y_of = 0\<rparr>]\<rparr>))"
    by (cases b) (simp_all add: eval_defs)
  from dq sq ex1 ex2 escape_row_cells [of "of_char ch"] show ?thesis by blast
qed

text \<open>The theorem at a backslash that follows a backslash in a double-quoted
  string.\<close>

theorem escape_returns_to_string_witness:
  "(0x20 :: nat) \<le> of_char (CHR 0x5C) \<and> (of_char (CHR 0x5C) :: nat) \<le> 0xFD \<and>
   json_lexer IN_DQ_STRING_ESCAPE (of_char (CHR 0x5C)) = St IN_DQ_STRING \<and>
   json_lexer IN_SQ_STRING_ESCAPE (of_char (CHR 0x5C)) = St IN_SQ_STRING \<and>
   json_lexer_feed_char
     ((json_lexer_init False)\<lparr>state := St IN_DQ_STRING_ESCAPE, token := [CHR 0x22, CHR 0x5C],
        x := 2\<rparr>) (CHR 0x5C) False =
     Some (Inr ((json_lexer_init False)\<lparr>state := St IN_DQ_STRING,
        token := [CHR 0x22, CHR 0x5C, CHR 0x5C], x := 3\<rparr>))"
  using escape_returns_to_string [of "CHR 0x5C"
      "(json_lexer_init False)\<lparr>state := St IN_DQ_STRING_ESCAPE, token := [CHR 0x22, CHR 0x5C],
        x := 2\<rparr>" False]
  by (simp add: json_lexer_init_def advance_position_def MAX_TOKEN_SIZE_def)

subsection \<open>Whitespace\<close>

text \<open>C9: After any sequence of feed and flush calls on a fresh instance, no call
  of the consumer carries the skip tag. The skip tag is a cell of the row
  \<^verbatim>\<open>IN_WHITESPACE\<close> only; a byte with that cell ends the pass through the loop body
  with an empty buffer, the start state and no call of the consumer, and the
  byte is not consumed. Feeding such a byte is feeding it to the instance so
  reset, and a flush there reports nothing before the end-of-input token.\<close>

theorem skip_never_reported:
  "(\<exists>l. run (json_lexer_init b) calls = Some (Inr l) \<and>
      (\<forall>e \<in> set (emitted l). type_of e \<noteq> Tok JSON_SKIP)) \<and>
   (state l = St s \<and> json_lexer s (of_char ch) = Tok JSON_SKIP \<longrightarrow>
      s = IN_WHITESPACE \<and>
      feed_char_iteration l ch flush =
        Inr (Next (l\<lparr>token := [], state := start_state l\<rparr>) False) \<and>
      json_lexer_feed_char l ch False =
        json_lexer_feed_char (l\<lparr>token := [], state := start_state l\<rparr>) ch False \<and>
      json_lexer_feed_char l ch True =
        Some (Inr ((advance_position l ch)\<lparr>token := [], state := start_state l\<rparr>)))"
proof -
  have reach: "\<exists>l. run (json_lexer_init b) calls = Some (Inr l) \<and>
      (\<forall>e \<in> set (emitted l). type_of e \<noteq> Tok JSON_SKIP)"
  proof -
    from run_total [OF json_lexer_init_settled, of b calls] obtain l where
      l: "run (json_lexer_init b) calls = Some (Inr l)" "extends (json_lexer_init b) l" by blast
    from l(2) have "\<forall>e \<in> set (emitted l). type_of e \<noteq> Tok JSON_SKIP"
      by (auto simp add: extends_def no_skip_def json_lexer_init_def)
    with l(1) show ?thesis by blast
  qed
  have ws: "s = IN_WHITESPACE \<and>
      feed_char_iteration l ch flush =
        Inr (Next (l\<lparr>token := [], state := start_state l\<rparr>) False) \<and>
      json_lexer_feed_char l ch False =
        json_lexer_feed_char (l\<lparr>token := [], state := start_state l\<rparr>) ch False \<and>
      json_lexer_feed_char l ch True =
        Some (Inr ((advance_position l ch)\<lparr>token := [], state := start_state l\<rparr>))"
    if h: "state l = St s" "json_lexer s (of_char ch) = Tok JSON_SKIP"
  proof -
    from h(2) have s: "s = IN_WHITESPACE" by (rule skip_cell_row)
    have zero: "json_lexer s 0 = Tok JSON_SKIP"
      unfolding s by (simp add: table_defs)
    have it: "feed_char_iteration l' ch fl =
        Inr (Next (l'\<lparr>token := [], state := start_state l'\<rparr>) False)" if "state l' = St s" for l' fl
      using that h(2) zero
      by (simp add: feed_char_iteration_def TERMINAL_NEEDED_LOOKAHEAD_def Let_def token_cases_def)
    have st: "state (advance_position l ch) = St s" using h(1) by simp
    have "feed_char_loop (advance_position l ch) ch False =
          feed_char_loop ((advance_position l ch)\<lparr>token := [],
            state := start_state (advance_position l ch),
            emitted := emitted (advance_position l ch) @
              (if JSON_SKIP = JSON_SKIP then []
               else [\<lparr>text_of = token (advance_position l ch), type_of = Tok JSON_SKIP,
                       x_of = x (advance_position l ch),
                       y_of = y (advance_position l ch)\<rparr>])\<rparr>) ch False"
      by (rule lookahead_step [OF st h(2) zero]) simp
    also have "(advance_position l ch)\<lparr>token := [],
            state := start_state (advance_position l ch),
            emitted := emitted (advance_position l ch) @
              (if JSON_SKIP = JSON_SKIP then []
               else [\<lparr>text_of = token (advance_position l ch), type_of = Tok JSON_SKIP,
                       x_of = x (advance_position l ch),
                       y_of = y (advance_position l ch)\<rparr>])\<rparr> =
          advance_position (l\<lparr>token := [], state := start_state l\<rparr>) ch"
      by (cases l) (simp add: advance_position_def Let_def)
    finally have feed: "json_lexer_feed_char l ch False =
        json_lexer_feed_char (l\<lparr>token := [], state := start_state l\<rparr>) ch False"
      by (simp add: json_lexer_feed_char_def)
    have "feed_char_loop (advance_position l ch) ch True =
        (case feed_char_iteration (advance_position l ch) ch True of
           Inl e \<Rightarrow> Some (Inl e)
         | Inr (Return lexer') \<Rightarrow> Some (Inr lexer')
         | Inr (Next lexer' char_consumed) \<Rightarrow>
             if \<not> char_consumed \<and> \<not> True then feed_char_loop lexer' ch True
             else Some (Inr (token_size_check lexer')))"
      by (rule feed_char_loop.simps)
    also have "\<dots> = Some (Inr ((advance_position l ch)\<lparr>token := [], state := start_state l\<rparr>))"
      by (simp add: it [OF st] token_size_check_idle)
    finally have fl: "json_lexer_feed_char l ch True =
        Some (Inr ((advance_position l ch)\<lparr>token := [], state := start_state l\<rparr>))"
      by (simp add: json_lexer_feed_char_def)
    from s it [OF h(1)] feed fl show ?thesis by blast
  qed
  from reach ws show ?thesis by blast
qed

text \<open>The theorem at a run of calls with whitespace between and after tokens,
  and at the byte \<^verbatim>\<open>1\<close> after a space.\<close>

theorem skip_never_reported_witness:
  "run (json_lexer_init False) [Feed ''[ 1 ,'', Flush, Feed '' '', Flush] =
     Some (Inr ((json_lexer_init False)\<lparr>x := 7, emitted :=
       [\<lparr>text_of = ''['', type_of = Tok JSON_LSQUARE, x_of = 1, y_of = 0\<rparr>,
        \<lparr>text_of = ''1'', type_of = Tok JSON_INTEGER, x_of = 4, y_of = 0\<rparr>,
        \<lparr>text_of = '','', type_of = Tok JSON_COMMA, x_of = 5, y_of = 0\<rparr>,
        \<lparr>text_of = [], type_of = Tok JSON_END_OF_INPUT, x_of = 5, y_of = 0\<rparr>,
        \<lparr>text_of = [], type_of = Tok JSON_END_OF_INPUT, x_of = 7, y_of = 0\<rparr>]\<rparr>)) \<and>
   json_lexer IN_WHITESPACE (of_char (CHR ''1'')) = Tok JSON_SKIP \<and>
   feed_char_iteration
     ((json_lexer_init False)\<lparr>state := St IN_WHITESPACE, token := '' '', x := 3\<rparr>) (CHR ''1'') False =
     Inr (Next ((json_lexer_init False)\<lparr>x := 3\<rparr>) False)"
  using skip_never_reported [of False "[Feed ''[ 1 ,'', Flush, Feed '' '', Flush]"
      "(json_lexer_init False)\<lparr>state := St IN_WHITESPACE, token := '' '', x := 3\<rparr>"
      IN_WHITESPACE "CHR ''1''" False]
  by (simp add: eval_defs)

subsection \<open>Termination of the loop\<close>

text \<open>C10: No transition from either start row needs lookahead, since cell 0 of
  both rows is \<^verbatim>\<open>IN_ERROR\<close>. On a well-formed instance, a pass through the loop
  body that does not consume the byte leaves the lexer in its start state. So
  on every well-formed instance, and on every instance reached from a fresh
  one by feed and flush calls, \<^verbatim>\<open>json_lexer_feed_char\<close> returns, and the loop with
  a budget of two passes yields the same result.\<close>

theorem feed_char_loop_at_most_twice:
  "\<not> TERMINAL_NEEDED_LOOKAHEAD IN_START v \<and>
   \<not> TERMINAL_NEEDED_LOOKAHEAD IN_START_INTERP v \<and>
   json_lexer IN_START 0 = St IN_ERROR \<and>
   json_lexer IN_START_INTERP 0 = St IN_ERROR \<and>
   (well_formed l \<and> feed_char_iteration l ch flush = Inr (Next l1 False) \<longrightarrow>
      state l1 = start_state l \<and> start_state l1 = start_state l) \<and>
   (well_formed l \<longrightarrow>
      (\<exists>l'. json_lexer_feed_char l ch flush = Some (Inr l') \<and>
         feed_char_loop_bounded (Suc (Suc 0)) (advance_position l ch) ch flush =
           Some (Inr l'))) \<and>
   (\<exists>l l'. run (json_lexer_init b) calls = Some (Inr l) \<and> well_formed l \<and>
      json_lexer_feed_char l ch flush = Some (Inr l') \<and>
      feed_char_loop_bounded (Suc (Suc 0)) (advance_position l ch) ch flush = Some (Inr l'))"
proof -
  have rows: "json_lexer IN_START 0 = St IN_ERROR" "json_lexer IN_START_INTERP 0 = St IN_ERROR"
    by (simp_all add: table_defs)
  have twice: "\<exists>l'. json_lexer_feed_char l ch flush = Some (Inr l') \<and>
         feed_char_loop_bounded (Suc (Suc 0)) (advance_position l ch) ch flush =
           Some (Inr l')" if "well_formed l" for l
  proof -
    from that have "well_formed (advance_position l ch)"
      by (simp add: well_formed_def)
    from feed_char_loop_total [OF this, of ch flush] show ?thesis
      unfolding json_lexer_feed_char_def by blast
  qed
  have reach: "\<exists>l l'. run (json_lexer_init b) calls = Some (Inr l) \<and> well_formed l \<and>
      json_lexer_feed_char l ch flush = Some (Inr l') \<and>
      feed_char_loop_bounded (Suc (Suc 0)) (advance_position l ch) ch flush = Some (Inr l')"
  proof -
    from run_total [OF json_lexer_init_settled, of b calls] obtain l where
      l: "run (json_lexer_init b) calls = Some (Inr l)" "well_formed l"
      by (auto simp add: settled_def)
    with twice [OF l(2)] show ?thesis by blast
  qed
  from rows start_rows_no_lookahead [of v] lookahead_resets [of l ch flush l1] twice [of l] reach
  show ?thesis by blast
qed

text \<open>The theorem at the byte \<^verbatim>\<open>,\<close> after \<^verbatim>\<open>0\<close>, where one pass does not
  suffice and two do.\<close>

theorem feed_char_loop_at_most_twice_witness:
  "well_formed ((json_lexer_init False)\<lparr>state := St IN_ZERO, token := ''0'', x := 1\<rparr>) \<and>
   feed_char_iteration
     ((json_lexer_init False)\<lparr>state := St IN_ZERO, token := ''0'', x := 2\<rparr>) (CHR '','') False =
     Inr (Next ((json_lexer_init False)\<lparr>x := 2, emitted :=
       [\<lparr>text_of = ''0'', type_of = Tok JSON_INTEGER, x_of = 2, y_of = 0\<rparr>]\<rparr>) False) \<and>
   feed_char_loop_bounded (Suc 0)
     ((json_lexer_init False)\<lparr>state := St IN_ZERO, token := ''0'', x := 2\<rparr>) (CHR '','') False = None \<and>
   feed_char_loop_bounded (Suc (Suc 0))
     ((json_lexer_init False)\<lparr>state := St IN_ZERO, token := ''0'', x := 2\<rparr>) (CHR '','') False =
     Some (Inr ((json_lexer_init False)\<lparr>x := 2, emitted :=
       [\<lparr>text_of = ''0'', type_of = Tok JSON_INTEGER, x_of = 2, y_of = 0\<rparr>,
        \<lparr>text_of = '','', type_of = Tok JSON_COMMA, x_of = 2, y_of = 0\<rparr>]\<rparr>)) \<and>
   json_lexer_feed_char
     ((json_lexer_init False)\<lparr>state := St IN_ZERO, token := ''0'', x := 1\<rparr>) (CHR '','') False =
     Some (Inr ((json_lexer_init False)\<lparr>x := 2, emitted :=
       [\<lparr>text_of = ''0'', type_of = Tok JSON_INTEGER, x_of = 2, y_of = 0\<rparr>,
        \<lparr>text_of = '','', type_of = Tok JSON_COMMA, x_of = 2, y_of = 0\<rparr>]\<rparr>))"
  using feed_char_loop_at_most_twice [of "Tok JSON_COMMA"
      "(json_lexer_init False)\<lparr>state := St IN_ZERO, token := ''0'', x := 1\<rparr>" "CHR '',''" False
      "(json_lexer_init False)\<lparr>x := 2\<rparr>" False "[]"]
  by (simp add: eval_defs well_formed_def)

end
